theory Spec2Isabelle
  imports Complex_Main "HOL-Library.Word" "HOL-Library.Multiset"
begin

section \<open>Timer Interrupt Interval Measurement Tool (TimerInterval.cpp)\<close>

text \<open>
  A shallow embedding of \<^verbatim>\<open>src/TimerInterval.cpp\<close>.

  \<^item> \<^verbatim>\<open>int64_t\<close> and \<^verbatim>\<open>uint32_t\<close> are machine words; arithmetic on them wraps, the
    signed reading is \<open>sint\<close>, the unsigned one \<open>unat\<close>.
  \<^item> \<^verbatim>\<open>double\<close> is \<open>real\<close>: arithmetic is exact. Rounding, infinities and NaN are
    not part of the model (in particular \<open>x / 0 = 0\<close>, as everywhere in HOL), and the
    conversion of an integer to \<^verbatim>\<open>double\<close> is the exact embedding.
  \<^item> \<^verbatim>\<open>std::vector\<close> and \<^verbatim>\<open>std::deque\<close> are lists, front at the head. An index past
    the end of the weight vector in \<^verbatim>\<open>getResult\<close> is a fault of the model.
  \<^item> The outside world is a parameter: what \<^verbatim>\<open>QueryPerformanceFrequency\<close> answers,
    what the \<open>n\<close>-th call of \<^verbatim>\<open>QueryPerformanceCounter\<close> answers, and the moments at
    which the console control handler runs. Time is counted in calls of
    \<^verbatim>\<open>getTimerValue\<close> made so far by the main thread.
\<close>

subsection \<open>Types and constants\<close>

type_synonym int64_t = "64 word"
type_synonym uint32_t = "32 word"

datatype fault =
    runtime_error string    \<comment> \<open>the C++ exception thrown by \<^verbatim>\<open>init_weights\<close>\<close>
  | out_of_range            \<comment> \<open>a read past the end of a \<^verbatim>\<open>std::vector\<close>\<close>

definition WINDOW_SIZE :: nat where
  "WINDOW_SIZE = 11"

definition PI :: real where
  "PI = 31415926535897932384626433832795028842 / 10 ^ 37"

definition SPINNER :: string where
  "SPINNER = [CHR ''/'', CHR ''-'', CHR 0x5C, CHR ''|'']"

definition EXIT_SUCCESS :: int where
  "EXIT_SUCCESS = 0"

text \<open>
  \<^verbatim>\<open>pow(x, y)\<close> of the C library, in exact arithmetic: repeated multiplication for an
  integral exponent (any base), \<open>exp (y * ln x)\<close> otherwise.
\<close>

definition pow :: "real \<Rightarrow> real \<Rightarrow> real" where
  "pow x y =
     (if y = of_int \<lfloor>y\<rfloor>
      then (if 0 \<le> y then x ^ nat \<lfloor>y\<rfloor> else 1 / x ^ nat \<lfloor>- y\<rfloor>)
      else x powr y)"

subsection \<open>The outside world\<close>

record world =
  QueryPerformanceFrequency :: "int64_t option"
    \<comment> \<open>\<open>None\<close>: the call fails\<close>
  QueryPerformanceCounter :: "nat \<Rightarrow> int64_t option"
    \<comment> \<open>the answer to the \<open>n\<close>-th call, \<open>None\<close>: the call fails\<close>
  signals :: "nat list"
    \<comment> \<open>the moments at which \<^verbatim>\<open>ctrl_handler\<close> is invoked\<close>

subsection \<open>Helper functions\<close>

definition getFrequency :: "world \<Rightarrow> int64_t" where
  "getFrequency env =
     (case QueryPerformanceFrequency env of Some v \<Rightarrow> v | None \<Rightarrow> - 1)"

definition getTimerValue :: "world \<Rightarrow> nat \<Rightarrow> int64_t \<times> nat" where
  "getTimerValue env t =
     ((case QueryPerformanceCounter env t of Some v \<Rightarrow> v | None \<Rightarrow> - 1), Suc t)"

text \<open>
  The measuring loop of \<^verbatim>\<open>doMeasure\<close>: \<open>i\<close> is the loop index, \<open>delay\<close> the vector,
  \<open>t\<close> the time. \<^verbatim>\<open>Sleep(1)\<close> changes nothing the program can see but the next clock
  reading.
\<close>

function doMeasure_loop :: "world \<Rightarrow> nat \<Rightarrow> int64_t list \<Rightarrow> nat \<Rightarrow> int64_t list \<times> nat" where
  "doMeasure_loop env i delay t =
     (if i < length delay
      then (let (timeBeg, t1) = getTimerValue env t;
                (timeEnd, t2) = getTimerValue env t1
            in doMeasure_loop env (i + 1) (delay[i := timeEnd - timeBeg]) t2)
      else (delay, t))"
  by pat_completeness auto
termination
  by (relation "measure (\<lambda>(env, i, delay, t). length delay - i)") auto

declare doMeasure_loop.simps [simp del]

definition doMeasure :: "world \<Rightarrow> nat \<Rightarrow> int64_t \<times> nat" where
  "doMeasure env t =
     (let (delay, t') = doMeasure_loop env 0 (replicate 5 0) t;
          sorted = sort_key sint delay
      in (sorted ! (length sorted div 2), t'))"

text \<open>
  The two loops of \<^verbatim>\<open>init_weights\<close>. The index is a \<^verbatim>\<open>uint32_t\<close>; \<open>x\<close> is the
  \<^verbatim>\<open>int32_t\<close> difference, computed with wrap-around and read as signed. (Lemma
  \<open>sint_index_minus_offset\<close> below shows that, for every index the loop reaches, the
  wrapped difference is the difference of the two numbers.) The vector has
  \<^verbatim>\<open>filterSize\<close> entries and the index stays below \<^verbatim>\<open>filterSize\<close>, so every access
  is in range.
\<close>

function init_weights_fill ::
  "uint32_t \<Rightarrow> uint32_t \<Rightarrow> real \<Rightarrow> real \<Rightarrow> uint32_t \<Rightarrow> real list \<Rightarrow> real \<Rightarrow> real list \<times> real" where
  "init_weights_fill filterSize offset c1 c2 i weights totalWeight =
     (if i < filterSize
      then (let x = i - offset;
                weights' = weights[unat i := c1 * exp (- (pow (real_of_int (sint x)) 2 / c2))]
            in init_weights_fill filterSize offset c1 c2 (i + 1) weights'
                 (totalWeight + weights' ! unat i))
      else (weights, totalWeight))"
  by pat_completeness auto
termination
proof (relation "measure (\<lambda>(filterSize, offset, c1, c2, i, weights, totalWeight).
                   unat filterSize - unat i)")
  show "wf (measure (\<lambda>(filterSize :: uint32_t, offset :: uint32_t, c1 :: real, c2 :: real,
                       i :: uint32_t, weights :: real list, totalWeight :: real).
                   unat filterSize - unat i))"
    by simp
next
  fix filterSize offset :: uint32_t and c1 c2 :: real and i :: uint32_t
    and weights :: "real list" and totalWeight :: real and x :: uint32_t and xa :: "real list"
  assume "i < filterSize"
  then have "unat i < unat filterSize"
    by (simp add: word_less_nat_alt)
  moreover have "unat filterSize < 2 ^ LENGTH(32)"
    by (rule unsigned_less)
  ultimately have "unat i + unat (1 :: uint32_t) < 2 ^ LENGTH(32)"
    by simp
  then have "unat (i + 1) = unat i + unat (1 :: uint32_t)"
    by (simp only: unat_add_lem)
  with \<open>unat i < unat filterSize\<close> show "((filterSize, offset, c1, c2, i + 1, xa, totalWeight + xa ! unat i),
                    (filterSize, offset, c1, c2, i, weights, totalWeight))
                   \<in> measure (\<lambda>(filterSize, offset, c1, c2, i, weights, totalWeight).
                       unat filterSize - unat i)"
    by simp
qed

declare init_weights_fill.simps [simp del]

function init_weights_scale :: "uint32_t \<Rightarrow> real \<Rightarrow> uint32_t \<Rightarrow> real list \<Rightarrow> real list" where
  "init_weights_scale filterSize adjust i weights =
     (if i < filterSize
      then init_weights_scale filterSize adjust (i + 1)
             (weights[unat i := weights ! unat i * adjust])
      else weights)"
  by pat_completeness auto
termination
proof (relation "measure (\<lambda>(filterSize, adjust, i, weights). unat filterSize - unat i)")
  show "wf (measure (\<lambda>(filterSize :: uint32_t, adjust :: real, i :: uint32_t,
                       weights :: real list). unat filterSize - unat i))"
    by simp
next
  fix filterSize :: uint32_t and adjust :: real and i :: uint32_t and weights :: "real list"
  assume "i < filterSize"
  then have "unat i < unat filterSize"
    by (simp add: word_less_nat_alt)
  moreover have "unat filterSize < 2 ^ LENGTH(32)"
    by (rule unsigned_less)
  ultimately have "unat i + unat (1 :: uint32_t) < 2 ^ LENGTH(32)"
    by simp
  then have "unat (i + 1) = unat i + unat (1 :: uint32_t)"
    by (simp only: unat_add_lem)
  with \<open>unat i < unat filterSize\<close> show "((filterSize, adjust, i + 1, weights[unat i := weights ! unat i * adjust]),
                    (filterSize, adjust, i, weights))
                   \<in> measure (\<lambda>(filterSize, adjust, i, weights). unat filterSize - unat i)"
    by simp
qed

declare init_weights_scale.simps [simp del]

definition init_weights :: "uint32_t \<Rightarrow> fault + real list" where
  "init_weights filterSize =
     (if filterSize < 1 \<or> filterSize mod 2 \<noteq> 1
      then Inl (runtime_error ''Filter size must be a positive and odd value!'')
      else (let sigma = (((real (unat filterSize) / 2) - 1) / 3) + (1 / 3);
                weights = replicate (unat filterSize) 0;
                totalWeight = 0;
                offset = filterSize div 2;
                c1 = 1 / (sigma * sqrt (2 * PI));
                c2 = 2 * pow sigma 2;
                (weights, totalWeight) =
                   init_weights_fill filterSize offset c1 c2 0 weights totalWeight;
                adjust = 1 / totalWeight
            in Inr (init_weights_scale filterSize adjust 0 weights)))"

text \<open>
  For stating results: the value the first loop of \<^verbatim>\<open>init_weights\<close> stores at
  index \<open>j\<close> when the size is \<open>n\<close>, with the index difference taken in the integers.
  That the loop stores exactly this is lemma \<open>init_weights_odd\<close> below.
\<close>

definition raw_weight :: "nat \<Rightarrow> nat \<Rightarrow> real" where
  "raw_weight n j =
     (let sigma = (((real n / 2) - 1) / 3) + (1 / 3);
          c1 = 1 / (sigma * sqrt (2 * PI));
          c2 = 2 * pow sigma 2
      in c1 * exp (- (pow (real_of_int (int j - int (n div 2))) 2 / c2)))"

text \<open>
  \<^verbatim>\<open>getResult\<close>: the iterator walks the deque from the front, \<open>k\<close> counts the
  position in the weight vector.
\<close>

fun getResult_loop :: "int64_t list \<Rightarrow> real list \<Rightarrow> nat \<Rightarrow> real \<Rightarrow> fault + real" where
  "getResult_loop [] weights k total_d = Inr total_d"
| "getResult_loop (d # iter) weights k total_d =
     (if k < length weights
      then getResult_loop iter weights (k + 1) (total_d + real_of_int (sint d) * weights ! k)
      else Inl out_of_range)"

definition getResult :: "int64_t list \<Rightarrow> int64_t \<Rightarrow> real list \<Rightarrow> fault + real" where
  "getResult results frequency weights =
     (case getResult_loop results weights 0 0 of
        Inl e \<Rightarrow> Inl e
      | Inr total_d \<Rightarrow> Inr ((total_d / real_of_int (sint frequency)) * 1000))"

text \<open>
  \<^verbatim>\<open>ctrl_handler\<close> writes the flag and answers \<^verbatim>\<open>TRUE\<close>. The flag starts out true and
  nothing else writes it, so its value at time \<open>t\<close> is what the handler invocations up
  to \<open>t\<close> have left: a read of the flag sees every write made before it.
\<close>

definition ctrl_handler :: "bool \<Rightarrow> bool \<times> bool" where
  "ctrl_handler g = (False, True)"

definition g_bRunning :: "world \<Rightarrow> nat \<Rightarrow> bool" where
  "g_bRunning env t =
     fold (\<lambda>s g. if s \<le> t then fst (ctrl_handler g) else g) (signals env) True"

subsection \<open>Main function\<close>

text \<open>
  The inner loop that shortens the window before the push. \<^verbatim>\<open>pop_front\<close> is only
  reached on a window of at least \<^verbatim>\<open>WINDOW_SIZE\<close> entries, hence never on an empty one.
\<close>

function pop_while_full :: "int64_t list \<Rightarrow> int64_t list" where
  "pop_while_full results =
     (if length results \<ge> WINDOW_SIZE then pop_while_full (tl results) else results)"
  by pat_completeness auto
termination
  by (relation "measure length") (auto simp: WINDOW_SIZE_def)

declare pop_while_full.simps [simp del]

datatype console_output =
    Banner                 \<comment> \<open>the title line\<close>
  | Initializing
  | Interval real char     \<comment> \<open>the line with the current value and the spinner\<close>
  | ExitNotice             \<comment> \<open>\<^verbatim>\<open>CTRL+C received: Application will exit now...\<close>\<close>

record main_state =
  results :: "int64_t list"
  spinner :: nat
  now :: nat                         \<comment> \<open>calls of \<^verbatim>\<open>getTimerValue\<close> so far\<close>
  printed :: "console_output list"
  computed :: "int64_t list list"
    \<comment> \<open>a log, not program state: the windows \<^verbatim>\<open>getResult\<close> was called on\<close>

text \<open>
  One pass through the body of the outer loop. The two \<^verbatim>\<open>SetPriorityClass\<close> requests
  change nothing the program reads and are left out.
\<close>

definition loop_body :: "world \<Rightarrow> int64_t \<Rightarrow> real list \<Rightarrow> main_state \<Rightarrow> fault + main_state" where
  "loop_body env frequency weights s =
     (let results1 = pop_while_full (results s);
          (d, t) = doMeasure env (now s);
          results2 = results1 @ [d];
          s1 = s\<lparr>results := results2, now := t\<rparr>
      in if length results2 = WINDOW_SIZE
         then (case getResult results2 frequency weights of
                 Inl e \<Rightarrow> Inl e
               | Inr result \<Rightarrow>
                   Inr (s1\<lparr>printed := printed s1 @ [Interval result (SPINNER ! spinner s1)],
                           spinner := (spinner s1 + 1) mod 4,
                           computed := computed s1 @ [results2]\<rparr>))
         else Inr s1)"

partial_function (option) main_loop ::
  "world \<Rightarrow> int64_t \<Rightarrow> real list \<Rightarrow> main_state \<Rightarrow> (fault + main_state) option" where
  "main_loop env frequency weights s =
     (if g_bRunning env (now s)
      then (case loop_body env frequency weights s of
              Inl e \<Rightarrow> Some (Inl e)
            | Inr s' \<Rightarrow> main_loop env frequency weights s')
      else Some (Inr s))"

definition tiimt_main :: "world \<Rightarrow> (fault + int \<times> main_state) option" where
  "tiimt_main env =
     (let frequency = getFrequency env
      in case init_weights (word_of_nat WINDOW_SIZE) of
           Inl e \<Rightarrow> Some (Inl e)
         | Inr weights \<Rightarrow>
             (case main_loop env frequency weights
                     \<lparr>results = [], spinner = 0, now = 0,
                      printed = [Banner, Initializing], computed = []\<rparr> of
                None \<Rightarrow> None
              | Some (Inl e) \<Rightarrow> Some (Inl e)
              | Some (Inr s) \<Rightarrow>
                  Some (Inr (EXIT_SUCCESS, s\<lparr>printed := printed s @ [ExitNotice]\<rparr>))))"

subsection \<open>Entry point\<close>

datatype ending =
    Returned int                 \<comment> \<open>\<^verbatim>\<open>main\<close> returns this value\<close>
  | FatalAppExit string          \<comment> \<open>the handler of the \<^verbatim>\<open>__except\<close> block\<close>

definition main :: "world \<Rightarrow> ending option" where
  "main env =
     (case tiimt_main env of
        None \<Rightarrow> None
      | Some (Inl e) \<Rightarrow> Some (FatalAppExit ''GURU MEDITATION: Unhandeled Exception Error!'')
      | Some (Inr (ret, s)) \<Rightarrow> Some (Returned ret))"

section \<open>Properties\<close>

subsection \<open>Loops in closed form\<close>

lemma getResult_loop_sum:
  "k + length xs \<le> length ws \<Longrightarrow>
   getResult_loop xs ws k tot =
     Inr (tot + (\<Sum>i<length xs. real_of_int (sint (xs ! i)) * ws ! (k + i)))"
proof (induction xs arbitrary: k tot)
  case Nil
  then show ?case by simp
next
  case (Cons d xs)
  then show ?case
    by (simp add: sum.lessThan_Suc_shift add.assoc del: sum.lessThan_Suc)
qed

lemma pop_while_full_drop:
  "pop_while_full xs = drop (length xs - (WINDOW_SIZE - 1)) xs"
proof (induction xs rule: pop_while_full.induct)
  case (1 xs)
  show ?case
  proof (cases "length xs \<ge> WINDOW_SIZE")
    case True
    then have "pop_while_full xs = pop_while_full (tl xs)"
      by (subst pop_while_full.simps) simp
    also have "\<dots> = drop (length (tl xs) - (WINDOW_SIZE - 1)) (tl xs)"
      using 1 True by simp
    also have "\<dots> = drop (length xs - (WINDOW_SIZE - 1)) xs"
    proof -
      from True have "Suc (length xs - WINDOW_SIZE) = length xs - (WINDOW_SIZE - 1)"
        by (simp add: WINDOW_SIZE_def)
      then show ?thesis
        by (simp add: drop_Suc [symmetric] Suc_diff_le WINDOW_SIZE_def)
    qed
    finally show ?thesis .
  next
    case False
    then show ?thesis
      by (subst pop_while_full.simps) (simp add: WINDOW_SIZE_def)
  qed
qed


lemma push_many:
  "foldl (\<lambda>w d. pop_while_full w @ [d]) [] xs = drop (length xs - WINDOW_SIZE) xs"
proof (induction xs rule: rev_induct)
  case Nil
  then show ?case by simp
next
  case (snoc x xs)
  let ?w = "drop (length xs - WINDOW_SIZE) xs"
  have "length ?w - (WINDOW_SIZE - 1) + (length xs - WINDOW_SIZE) = Suc (length xs) - WINDOW_SIZE"
    by (simp add: WINDOW_SIZE_def)
  then have "pop_while_full ?w = drop (Suc (length xs) - WINDOW_SIZE) xs"
    by (simp only: pop_while_full_drop drop_drop)
  then show ?case
    using snoc by (simp add: WINDOW_SIZE_def)
qed



lemma doMeasure_loop_closed:
  "m = length delay - i \<Longrightarrow> i \<le> length delay \<Longrightarrow>
   doMeasure_loop env i delay t =
     (take i delay @
        map (\<lambda>j. fst (getTimerValue env (t + 2 * j + 1)) - fst (getTimerValue env (t + 2 * j)))
          [0..<m],
      t + 2 * m)"
proof (induction m arbitrary: i delay t)
  case 0
  then show ?case
    by (subst doMeasure_loop.simps) simp
next
  case (Suc m)
  let ?d = "fst (getTimerValue env (t + 1)) - fst (getTimerValue env t)"
  from Suc.prems have lt: "i < length delay"
    by simp
  then have "doMeasure_loop env i delay t = doMeasure_loop env (i + 1) (delay[i := ?d]) (t + 2)"
    by (subst doMeasure_loop.simps) (simp add: getTimerValue_def)
  also have "\<dots> = (take (i + 1) (delay[i := ?d]) @
        map (\<lambda>j. fst (getTimerValue env (t + 2 + 2 * j + 1)) - fst (getTimerValue env (t + 2 + 2 * j)))
          [0..<m],
      t + 2 + 2 * m)"
    using Suc.prems by (intro Suc.IH) simp_all
  also have "take (i + 1) (delay[i := ?d]) = take i delay @ [?d]"
    using lt by (simp add: take_Suc_conv_app_nth)
  also have "map (\<lambda>j. fst (getTimerValue env (t + 2 + 2 * j + 1)) - fst (getTimerValue env (t + 2 + 2 * j))) [0..<m]
     = map (\<lambda>j. fst (getTimerValue env (t + 2 * j + 1)) - fst (getTimerValue env (t + 2 * j))) (map Suc [0..<m])"
    by simp
  finally show ?case
    by (simp add: map_Suc_upt upt_conv_Cons del: upt_Suc)
qed

lemma doMeasure_closed:
  "doMeasure env t =
     (sort_key sint
        (map (\<lambda>j. fst (getTimerValue env (t + 2 * j + 1)) - fst (getTimerValue env (t + 2 * j)))
           [0..<5]) ! 2,
      t + 10)"
  by (simp add: doMeasure_def doMeasure_loop_closed [where m = 5])

lemma median_of_five:
  fixes xs :: "int64_t list"
  assumes "length xs = 5"
  shows "sort_key sint xs ! 2 \<in> set xs"
    and "3 \<le> length (filter (\<lambda>x. sint x \<le> sint (sort_key sint xs ! 2)) xs)"
    and "3 \<le> length (filter (\<lambda>x. sint (sort_key sint xs ! 2) \<le> sint x) xs)"
proof -
  let ?ys = "sort_key sint xs"
  let ?m = "?ys ! 2"
  have len: "length ?ys = 5"
    using assms by simp
  have srt: "sorted (map sint ?ys)"
    by (rule sorted_sort_key)
  have mono: "sint (?ys ! i) \<le> sint (?ys ! j)" if "i \<le> j" "j < 5" for i j
    using sorted_nth_mono [OF srt, of i j] that len by simp
  have cnt: "length (filter P xs) = length (filter P ?ys)" for P
  proof -
    have "mset (filter P xs) = mset (filter P ?ys)"
      by (simp only: mset_filter mset_sort)
    then show ?thesis
      by (rule mset_eq_length)
  qed
  have "?m \<in> set ?ys"
    using len by (intro nth_mem) simp
  then show "?m \<in> set xs"
    by simp
  have "filter (\<lambda>x. sint x \<le> sint ?m) (take 3 ?ys) = take 3 ?ys"
    by (rule filter_True) (auto simp: in_set_conv_nth len intro!: mono)
  moreover have "?ys = take 3 ?ys @ drop 3 ?ys"
    by simp
  ultimately have "length (filter (\<lambda>x. sint x \<le> sint ?m) ?ys) \<ge> length (take 3 ?ys)"
    by (metis filter_append length_append le_add1)
  then show "3 \<le> length (filter (\<lambda>x. sint x \<le> sint ?m) xs)"
    using len by (simp add: cnt)
  have "filter (\<lambda>x. sint ?m \<le> sint x) (drop 2 ?ys) = drop 2 ?ys"
    by (rule filter_True) (auto simp: in_set_conv_nth assms intro!: mono)
  moreover have "?ys = take 2 ?ys @ drop 2 ?ys"
    by simp
  ultimately have "length (filter (\<lambda>x. sint ?m \<le> sint x) ?ys) \<ge> length (drop 2 ?ys)"
    by (metis filter_append length_append le_add2)
  then show "3 \<le> length (filter (\<lambda>x. sint ?m \<le> sint x) xs)"
    using len by (simp add: cnt)
qed

subsection \<open>Index arithmetic of the weight loops\<close>

lemma word_index_Suc:
  fixes i filterSize :: uint32_t
  assumes "i < filterSize"
  shows "unat (i + 1) = Suc (unat i)"
proof -
  from assms have "unat i < unat filterSize"
    by (simp add: word_less_nat_alt)
  moreover have "unat filterSize < 2 ^ LENGTH(32)"
    by (rule unsigned_less)
  ultimately have "unat i + unat (1 :: uint32_t) < 2 ^ LENGTH(32)"
    by simp
  then have "unat (i + 1) = unat i + unat (1 :: uint32_t)"
    by (simp only: unat_add_lem)
  then show ?thesis by simp
qed

lemma sint_index_minus_offset:
  fixes i filterSize :: uint32_t
  assumes "i < filterSize"
  shows "sint (i - filterSize div 2) = int (unat i) - int (unat filterSize div 2)"
proof -
  have n: "uint filterSize < 2 ^ 32"
    using uint_lt2p [of filterSize] by simp
  have i: "uint i < uint filterSize" "0 \<le> uint i"
    using assms by (simp_all add: word_less_def)
  have off: "uint (filterSize div 2) = uint filterSize div 2"
    by (simp add: uint_div_distrib)
  let ?k = "uint i - uint filterSize div 2"
  have "i - filterSize div 2 = word_of_int ?k"
    by (simp add: off [symmetric])
  then have "sint (i - filterSize div 2) = signed_take_bit 31 ?k"
    by (simp only: sint_sbintrunc') simp
  also have "\<dots> = ?k"
  proof (rule signed_take_bit_int_eq_self)
    have "(0 :: int) \<le> uint i" "uint i < uint filterSize" "uint filterSize < 4294967296"
      using n i by simp_all
    then have "- 2147483648 \<le> ?k \<and> ?k < 2147483648"
      by presburger
    then show "- (2 ^ 31) \<le> ?k" and "?k < 2 ^ 31"
      by simp_all
  qed
  also have "\<dots> = int (unat i) - int (unat filterSize div 2)"
    by (simp add: zdiv_int)
  finally show ?thesis .
qed

lemma init_weights_fill_closed:
  fixes filterSize offset i :: uint32_t
  assumes G: "\<And>k. G k = c1 * exp (- (pow (real_of_int (sint (word_of_nat k - offset))) 2 / c2))"
    and "m = unat filterSize - unat i" and "length weights = unat filterSize"
  shows "init_weights_fill filterSize offset c1 c2 i weights totalWeight =
     (take (unat i) weights @ map (\<lambda>j. G (unat i + j)) [0..<m],
      totalWeight + (\<Sum>j<m. G (unat i + j)))"
  using assms(2,3)
proof (induction m arbitrary: i weights totalWeight)
  case 0
  then have "\<not> i < filterSize"
    by (simp add: word_less_nat_alt)
  with 0 show ?case
    by (subst init_weights_fill.simps) simp
next
  case (Suc m)
  from Suc.prems have lt: "i < filterSize" and lt': "unat i < length weights"
    by (simp_all add: word_less_nat_alt)
  then have s: "unat (i + 1) = Suc (unat i)"
    by (simp add: word_index_Suc)
  have gi: "c1 * exp (- (pow (real_of_int (sint (i - offset))) 2 / c2)) = G (unat i)"
    by (simp add: G)
  have "init_weights_fill filterSize offset c1 c2 i weights totalWeight =
        init_weights_fill filterSize offset c1 c2 (i + 1) (weights[unat i := G (unat i)])
          (totalWeight + G (unat i))"
    using lt lt' by (subst init_weights_fill.simps) (simp only: Let_def gi if_True nth_list_update_eq)
  also have "\<dots> = (take (unat (i + 1)) (weights[unat i := G (unat i)]) @
        map (\<lambda>j. G (unat (i + 1) + j)) [0..<m],
      totalWeight + G (unat i) + (\<Sum>j<m. G (unat (i + 1) + j)))"
    using Suc.prems s by (intro Suc.IH) simp_all
  also have "take (unat (i + 1)) (weights[unat i := G (unat i)]) = take (unat i) weights @ [G (unat i)]"
    using lt' by (simp add: s take_Suc_conv_app_nth)
  also have "map (\<lambda>j. G (unat (i + 1) + j)) [0..<m] =
             map (\<lambda>j. G (unat i + j)) (map Suc [0..<m])"
    by (simp only: s add_Suc add_Suc_right map_map o_def)
  also have "(\<Sum>j<m. G (unat (i + 1) + j)) = (\<Sum>j<m. G (unat i + Suc j))"
    by (simp only: s add_Suc add_Suc_right)
  finally show ?case
    by (simp add: map_Suc_upt upt_conv_Cons sum.lessThan_Suc_shift add.assoc
             del: upt_Suc sum.lessThan_Suc)
qed

lemma init_weights_scale_closed:
  fixes filterSize i :: uint32_t
  assumes "m = unat filterSize - unat i" and "length weights = unat filterSize"
  shows "init_weights_scale filterSize adjust i weights =
           take (unat i) weights @ map (\<lambda>w. w * adjust) (drop (unat i) weights)"
  using assms
proof (induction m arbitrary: i weights)
  case 0
  then have "\<not> i < filterSize"
    by (simp add: word_less_nat_alt)
  with 0 show ?case
    by (subst init_weights_scale.simps) simp
next
  case (Suc m)
  from Suc.prems have lt: "i < filterSize" and lt': "unat i < length weights"
    by (simp_all add: word_less_nat_alt)
  then have s: "unat (i + 1) = Suc (unat i)"
    by (simp add: word_index_Suc)
  let ?ws = "weights[unat i := weights ! unat i * adjust]"
  have "init_weights_scale filterSize adjust i weights =
        init_weights_scale filterSize adjust (i + 1) ?ws"
    using lt by (subst init_weights_scale.simps) simp
  also have "\<dots> = take (unat (i + 1)) ?ws @ map (\<lambda>w. w * adjust) (drop (unat (i + 1)) ?ws)"
    using Suc.prems s by (intro Suc.IH) simp_all
  also have "\<dots> = take (unat i) weights @ [weights ! unat i * adjust] @
                     map (\<lambda>w. w * adjust) (drop (Suc (unat i)) weights)"
    using lt' by (simp add: s take_Suc_conv_app_nth)
  also have "\<dots> = take (unat i) weights @ map (\<lambda>w. w * adjust) (drop (unat i) weights)"
    using lt' by (simp add: Cons_nth_drop_Suc [symmetric])
  finally show ?case .
qed

lemma sint_of_nat_minus_offset:
  fixes filterSize :: uint32_t
  assumes "k < unat filterSize"
  shows "sint (word_of_nat k - filterSize div 2) = int k - int (unat filterSize div 2)"
proof -
  have "unat filterSize < 2 ^ LENGTH(32)"
    by (rule unsigned_less)
  with assms have k: "unat (word_of_nat k :: uint32_t) = k"
    by (simp add: unat_of_nat)
  with assms have "(word_of_nat k :: uint32_t) < filterSize"
    by (simp add: word_less_nat_alt)
  then show ?thesis
    using sint_index_minus_offset [of "word_of_nat k" filterSize] k by simp
qed

lemma odd_word_checks:
  fixes filterSize :: uint32_t
  shows "filterSize < 1 \<longleftrightarrow> unat filterSize = 0"
    and "filterSize mod 2 \<noteq> 1 \<longleftrightarrow> even (unat filterSize)"
proof -
  show "filterSize < 1 \<longleftrightarrow> unat filterSize = 0"
    by (simp add: word_less_1 unat_eq_0)
  show "filterSize mod 2 \<noteq> 1 \<longleftrightarrow> even (unat filterSize)"
    by (metis even_of_nat odd_iff_mod_2_eq_one of_nat_unat ucast_id)
qed

lemma init_weights_odd:
  fixes filterSize :: uint32_t
  assumes "odd (unat filterSize)"
  shows "init_weights filterSize =
           Inr (map (\<lambda>j. raw_weight (unat filterSize) j *
                          (1 / (\<Sum>k<unat filterSize. raw_weight (unat filterSize) k)))
                  [0..<unat filterSize])"
proof -
  let ?n = "unat filterSize"
  define sigma where "sigma = (((real ?n / 2) - 1) / 3) + (1 / 3)"
  define c1 where "c1 = 1 / (sigma * sqrt (2 * PI))"
  define c2 where "c2 = 2 * pow sigma 2"
  define G where "G k = c1 * exp (- (pow (real_of_int (sint (word_of_nat k - filterSize div 2))) 2 / c2))" for k
  have G: "G k = raw_weight ?n k" if "k < ?n" for k
    using that by (simp add: G_def raw_weight_def Let_def sint_of_nat_minus_offset sigma_def c1_def c2_def)
  have fill: "init_weights_fill filterSize (filterSize div 2) c1 c2 0 (replicate ?n 0) 0 =
          (map G [0..<?n], (\<Sum>j<?n. G j))"
    using init_weights_fill_closed [of G c1 "filterSize div 2" c2 ?n filterSize 0 "replicate ?n 0" 0]
    by (simp add: G_def)
  have scale: "init_weights_scale filterSize a 0 (map G [0..<?n]) = map (\<lambda>w. w * a) (map G [0..<?n])" for a
    using init_weights_scale_closed [of ?n filterSize 0 "map G [0..<?n]" a] by simp
  have ok: "\<not> (filterSize < 1 \<or> filterSize mod 2 \<noteq> 1)"
    using assms unfolding odd_word_checks by (auto elim: oddE)
  have "init_weights filterSize = Inr (map (\<lambda>w. w * (1 / (\<Sum>j<?n. G j))) (map G [0..<?n]))"
    unfolding init_weights_def using ok
    by (simp only: if_False Let_def sigma_def [symmetric] c1_def [symmetric] c2_def [symmetric]
          fill scale prod.case)
  also have "map G [0..<?n] = map (raw_weight ?n) [0..<?n]"
    by (rule map_cong) (simp_all add: G)
  also have "(\<Sum>j<?n. G j) = (\<Sum>j<?n. raw_weight ?n j)"
    by (rule sum.cong) (simp_all add: G)
  finally show ?thesis
    by (simp add: o_def)
qed

subsection \<open>The kernel\<close>

lemma pow_2: "pow x 2 = x\<^sup>2"
  by (simp add: pow_def)

lemma PI_pos: "0 < PI"
  by (simp add: PI_def)

lemma raw_weight_eq:
  "raw_weight n j =
     1 / ((((real n / 2) - 1) / 3 + 1 / 3) * sqrt (2 * PI)) *
     exp (- ((real_of_int (int j - int (n div 2)))\<^sup>2 / (2 * (((real n / 2) - 1) / 3 + 1 / 3)\<^sup>2)))"
  by (simp add: raw_weight_def Let_def pow_2)

lemma sigma_pos:
  assumes "0 < n"
  shows "0 < ((real n / 2) - 1) / 3 + 1 / 3"
proof -
  have eq: "((real n / 2) - 1) / 3 + 1 / 3 = real n / 6"
    by (simp add: field_simps)
  from assms have "0 < real n / 6"
    by simp
  then show ?thesis
    by (simp only: eq)
qed

lemma raw_weight_pos: "0 < n \<Longrightarrow> 0 < raw_weight n j"
  unfolding raw_weight_eq using sigma_pos [of n] PI_pos
  by (intro mult_pos_pos divide_pos_pos exp_gt_zero) simp_all

lemma raw_weight_mono:
  assumes "0 < n" and "\<bar>int j - int (n div 2)\<bar> \<le> \<bar>int i - int (n div 2)\<bar>"
  shows "raw_weight n i \<le> raw_weight n j"
proof -
  let ?s = "((real n / 2) - 1) / 3 + 1 / 3"
  have s: "0 < ?s" using assms(1) by (rule sigma_pos)
  have "\<bar>real_of_int (int j - int (n div 2))\<bar> \<le> \<bar>real_of_int (int i - int (n div 2))\<bar>"
    using assms(2) by (metis of_int_abs of_int_le_iff)
  then have "(real_of_int (int j - int (n div 2)))\<^sup>2 \<le> (real_of_int (int i - int (n div 2)))\<^sup>2"
    by (simp only: abs_le_square_iff)
  then have "(real_of_int (int j - int (n div 2)))\<^sup>2 / (2 * ?s\<^sup>2)
        \<le> (real_of_int (int i - int (n div 2)))\<^sup>2 / (2 * ?s\<^sup>2)"
    using s by (intro divide_right_mono) simp_all
  then have "exp (- ((real_of_int (int i - int (n div 2)))\<^sup>2 / (2 * ?s\<^sup>2)))
        \<le> exp (- ((real_of_int (int j - int (n div 2)))\<^sup>2 / (2 * ?s\<^sup>2)))"
    by simp
  moreover have "0 \<le> 1 / (?s * sqrt (2 * PI))"
    using s PI_pos by simp
  ultimately show ?thesis
    unfolding raw_weight_eq by (rule mult_left_mono)
qed

lemma raw_weight_sym:
  assumes "odd n" and "i < n"
  shows "raw_weight n (n - 1 - i) = raw_weight n i"
proof -
  from assms obtain h where n: "n = 2 * h + 1"
    by (auto elim: oddE)
  with assms have "int (n - 1 - i) - int (n div 2) = - (int i - int (n div 2))"
    by simp
  then have "(real_of_int (int (n - 1 - i) - int (n div 2)))\<^sup>2 = (real_of_int (int i - int (n div 2)))\<^sup>2"
    by (simp only: of_int_minus power2_minus)
  then show ?thesis
    by (simp only: raw_weight_eq)
qed

lemma raw_total_pos: "0 < n \<Longrightarrow> 0 < (\<Sum>k<n. raw_weight n k)"
  by (rule sum_pos) (auto simp: raw_weight_pos)

lemma init_weights_nth:
  fixes filterSize :: uint32_t
  assumes "odd (unat filterSize)"
  obtains weights where "init_weights filterSize = Inr weights"
    and "length weights = unat filterSize"
    and "\<And>i. i < unat filterSize \<Longrightarrow>
           weights ! i = raw_weight (unat filterSize) i *
                          (1 / (\<Sum>k<unat filterSize. raw_weight (unat filterSize) k))"
proof
  show "init_weights filterSize =
           Inr (map (\<lambda>j. raw_weight (unat filterSize) j *
                          (1 / (\<Sum>k<unat filterSize. raw_weight (unat filterSize) k)))
                  [0..<unat filterSize])"
    using assms by (rule init_weights_odd)
qed simp_all

lemma init_weights_sum:
  fixes filterSize :: uint32_t
  assumes "odd (unat filterSize)"
  shows "\<exists>weights. init_weights filterSize = Inr weights \<and> length weights = unat filterSize \<and>
           sum_list weights = 1"
proof -
  let ?n = "unat filterSize"
  let ?S = "\<Sum>k<?n. raw_weight ?n k"
  from assms have "0 < ?n" by (auto elim: oddE)
  then have S: "0 < ?S" by (rule raw_total_pos)
  have "sum_list (map (\<lambda>j. raw_weight ?n j * (1 / ?S)) [0..<?n]) = (\<Sum>j<?n. raw_weight ?n j * (1 / ?S))"
    by (simp add: interv_sum_list_conv_sum_set_nat atLeast0LessThan)
  also have "\<dots> = ?S * (1 / ?S)"
    by (simp only: sum_distrib_right)
  also have "\<dots> = 1"
    using S by simp
  finally show ?thesis
    using init_weights_odd [OF assms] by simp
qed

subsection \<open>The main loop\<close>

lemma getResult_loop_fault:
  "k \<le> length ws \<Longrightarrow> length ws < k + length xs \<Longrightarrow>
   getResult_loop xs ws k tot = Inl out_of_range"
  by (induction xs arbitrary: k tot) simp_all

lemma getResult_Inr_iff:
  "(\<exists>r. getResult window frequency weights = Inr r) \<longleftrightarrow> length window \<le> length weights"
proof (cases "length window \<le> length weights")
  case True
  then show ?thesis
    by (simp add: getResult_def getResult_loop_sum)
next
  case False
  then show ?thesis
    by (simp add: getResult_def getResult_loop_fault)
qed

lemma g_bRunning_iff: "g_bRunning env t \<longleftrightarrow> (\<forall>s \<in> set (signals env). t < s)"
proof -
  have "fold (\<lambda>s g. if s \<le> t then fst (ctrl_handler g) else g) xs b \<longleftrightarrow>
        b \<and> (\<forall>s \<in> set xs. t < s)" for xs b
    by (induction xs arbitrary: b) (auto simp: ctrl_handler_def)
  then show ?thesis
    by (simp add: g_bRunning_def)
qed

lemma loop_body_ok:
  assumes "length weights = WINDOW_SIZE"
  shows "\<exists>s'. loop_body env frequency weights s = Inr s' \<and>
           now s' = now s + 10 \<and>
           results s' = pop_while_full (results s) @ [fst (doMeasure env (now s))] \<and>
           (computed s' = computed s \<and> printed s' = printed s \<and> length (results s') \<noteq> WINDOW_SIZE \<or>
            computed s' = computed s @ [results s'] \<and> length (results s') = WINDOW_SIZE \<and>
            (\<exists>r. getResult (results s') frequency weights = Inr r \<and>
                 printed s' = printed s @ [Interval r (SPINNER ! spinner s)]))"
proof -
  let ?w = "pop_while_full (results s) @ [fst (doMeasure env (now s))]"
  show ?thesis
  proof (cases "length ?w = WINDOW_SIZE")
    case True
    with assms obtain r where "getResult ?w frequency weights = Inr r"
      using getResult_Inr_iff [of ?w frequency weights] by auto
    with True show ?thesis
      by (simp add: loop_body_def Let_def doMeasure_closed)
  next
    case False
    then show ?thesis
      by (simp add: loop_body_def Let_def doMeasure_closed)
  qed
qed

lemma main_loop_terminates:
  assumes "length weights = WINDOW_SIZE"
  shows "(\<forall>j<k. g_bRunning env (now s + 10 * j)) \<Longrightarrow> \<not> g_bRunning env (now s + 10 * k) \<Longrightarrow>
         \<exists>s'. main_loop env frequency weights s = Some (Inr s') \<and> now s' = now s + 10 * k \<and>
              (\<exists>ps. printed s' = printed s @ ps)"
proof (induction k arbitrary: s)
  case 0
  then show ?case
    by (subst main_loop.simps) simp
next
  case (Suc k)
  from Suc.prems(1) have run: "g_bRunning env (now s)"
    by (metis add.right_neutral mult_zero_right zero_less_Suc)
  from loop_body_ok [OF assms, of env frequency s]
  obtain s1 where s1: "loop_body env frequency weights s = Inr s1" "now s1 = now s + 10"
    "\<exists>ps. printed s1 = printed s @ ps"
    by auto
  have "\<forall>j<k. g_bRunning env (now s1 + 10 * j)"
  proof (intro allI impI)
    fix j assume "j < k"
    then have "Suc j < Suc k"
      by simp
    with Suc.prems(1) have "g_bRunning env (now s + 10 * Suc j)"
      by blast
    then show "g_bRunning env (now s1 + 10 * j)"
      by (simp add: s1(2) add.assoc)
  qed
  moreover have "\<not> g_bRunning env (now s1 + 10 * k)"
    using Suc.prems(2) by (simp add: s1(2) add.assoc)
  ultimately obtain s' where "main_loop env frequency weights s1 = Some (Inr s')"
    "now s' = now s1 + 10 * k" "\<exists>ps. printed s' = printed s1 @ ps"
    using Suc.IH by blast
  with run s1 show ?case
    by (subst main_loop.simps) auto
qed

lemma main_loop_computed:
  assumes "main_loop env frequency weights s = Some y"
  shows "length weights = WINDOW_SIZE \<Longrightarrow>
         \<forall>w \<in> set (computed s). length w = WINDOW_SIZE \<Longrightarrow>
         \<exists>s'. y = Inr s' \<and> (\<forall>w \<in> set (computed s'). length w = WINDOW_SIZE)"
  using assms
proof (induction env frequency weights s y rule: main_loop.raw_induct [rotated, consumes 1, case_names step])
  case (step main_loop' env frequency weights s y)
  show ?case
  proof (cases "g_bRunning env (now s)")
    case True
    from loop_body_ok [OF step.prems(1), of env frequency s]
    obtain s1 where s1: "loop_body env frequency weights s = Inr s1"
      "computed s1 = computed s \<or> computed s1 = computed s @ [results s1] \<and> length (results s1) = WINDOW_SIZE"
      by auto
    with step.prems(2) have "\<forall>w \<in> set (computed s1). length w = WINDOW_SIZE"
      by auto
    moreover from step.hyps True s1(1) have "main_loop' env frequency weights s1 = Some y"
      by simp
    ultimately show ?thesis
      using step.IH step.prems(1) by blast
  next
    case False
    with step.hyps step.prems(2) show ?thesis
      by auto
  qed
qed

lemma init_weights_WINDOW_SIZE:
  obtains weights where "init_weights (word_of_nat WINDOW_SIZE) = Inr weights"
    and "length weights = WINDOW_SIZE"
proof -
  have "odd (unat (word_of_nat WINDOW_SIZE :: uint32_t))"
    by (simp add: WINDOW_SIZE_def)
  then obtain weights where "init_weights (word_of_nat WINDOW_SIZE) = Inr weights"
    "length weights = unat (word_of_nat WINDOW_SIZE :: uint32_t)"
    using init_weights_sum by blast
  then show ?thesis
    by (intro that [of weights]) (simp_all add: WINDOW_SIZE_def)
qed

lemma tiimt_main_returns:
  assumes "signals env \<noteq> []"
  shows "\<exists>s. tiimt_main env = Some (Inr (EXIT_SUCCESS, s)) \<and>
             now s = 10 * ((Min (set (signals env)) + 9) div 10) \<and>
             last (printed s) = ExitNotice"
proof -
  let ?T = "Min (set (signals env))"
  let ?k = "(?T + 9) div 10"
  let ?s0 = "\<lparr>results = [], spinner = 0, now = 0,
              printed = [Banner, Initializing], computed = []\<rparr>"
  obtain weights where w: "init_weights (word_of_nat WINDOW_SIZE) = Inr weights"
    "length weights = WINDOW_SIZE"
    by (rule init_weights_WINDOW_SIZE)
  have run: "g_bRunning env t \<longleftrightarrow> t < ?T" for t
    using assms by (simp add: g_bRunning_iff)
  have before: "10 * j < T" if "j < (T + 9) div 10" for j T :: nat
    using that by presburger
  have after: "\<not> 10 * ((T + 9) div 10) < T" for T :: nat
    by presburger
  have "\<forall>j<?k. g_bRunning env (now ?s0 + 10 * j)"
    by (simp add: run before)
  moreover have "\<not> g_bRunning env (now ?s0 + 10 * ?k)"
    by (simp add: run after)
  ultimately obtain s' where s': "main_loop env (getFrequency env) weights ?s0 = Some (Inr s')"
    "now s' = now ?s0 + 10 * ?k"
    using main_loop_terminates [OF w(2), of ?k env ?s0 "getFrequency env"] by blast
  then show ?thesis
    using w(1) by (simp add: tiimt_main_def)
qed


text \<open>The window a run ends with: what the pushes of its passes leave.\<close>

lemma main_loop_window:
  assumes "length weights = WINDOW_SIZE"
  shows "(\<forall>j<k. g_bRunning env (now s + 10 * j)) \<Longrightarrow> \<not> g_bRunning env (now s + 10 * k) \<Longrightarrow>
         \<exists>s'. main_loop env frequency weights s = Some (Inr s') \<and>
              results s' =
                foldl (\<lambda>w d. pop_while_full w @ [d]) (results s)
                  (map (\<lambda>j. fst (doMeasure env (now s + 10 * j))) [0..<k])"
proof (induction k arbitrary: s)
  case 0
  then show ?case
    by (subst main_loop.simps) simp
next
  case (Suc k)
  from Suc.prems(1) have run: "g_bRunning env (now s)"
    by (metis add.right_neutral mult_zero_right zero_less_Suc)
  from loop_body_ok [OF assms, of env frequency s]
  obtain s1 where s1: "loop_body env frequency weights s = Inr s1" "now s1 = now s + 10"
    "results s1 = pop_while_full (results s) @ [fst (doMeasure env (now s))]"
    by auto
  have "\<forall>j<k. g_bRunning env (now s1 + 10 * j)"
  proof (intro allI impI)
    fix j assume "j < k"
    then have "Suc j < Suc k"
      by simp
    with Suc.prems(1) have "g_bRunning env (now s + 10 * Suc j)"
      by blast
    then show "g_bRunning env (now s1 + 10 * j)"
      by (simp add: s1(2) add.assoc)
  qed
  moreover have "\<not> g_bRunning env (now s1 + 10 * k)"
    using Suc.prems(2) by (simp add: s1(2) add.assoc)
  ultimately obtain s' where s': "main_loop env frequency weights s1 = Some (Inr s')"
    "results s' = foldl (\<lambda>w d. pop_while_full w @ [d]) (results s1)
       (map (\<lambda>j. fst (doMeasure env (now s1 + 10 * j))) [0..<k])"
    using Suc.IH by blast
  have "map (\<lambda>j. fst (doMeasure env (now s + 10 * j))) [0..<Suc k] =
        fst (doMeasure env (now s)) #
        map (\<lambda>j. fst (doMeasure env (now s1 + 10 * j))) [0..<k]"
    by (simp add: upt_conv_Cons map_Suc_upt [symmetric] s1(2) add.assoc del: upt_Suc)
  then have "foldl (\<lambda>w d. pop_while_full w @ [d]) (results s)
               (map (\<lambda>j. fst (doMeasure env (now s + 10 * j))) [0..<Suc k]) = results s'"
    by (simp only: foldl_Cons s'(2) s1(3))
  moreover have "main_loop env frequency weights s = Some (Inr s')"
    using run s1(1) s'(1) by (subst main_loop.simps) simp
  ultimately show ?case
    by simp
qed

lemma tiimt_main_window:
  assumes "signals env \<noteq> []"
  shows "\<exists>s. tiimt_main env = Some (Inr (EXIT_SUCCESS, s)) \<and>
             results s =
               drop ((Min (set (signals env)) + 9) div 10 - WINDOW_SIZE)
                 (map (\<lambda>j. fst (doMeasure env (10 * j)))
                    [0..<(Min (set (signals env)) + 9) div 10])"
proof -
  let ?T = "Min (set (signals env))"
  let ?k = "(?T + 9) div 10"
  let ?s0 = "\<lparr>results = [], spinner = 0, now = 0,
              printed = [Banner, Initializing], computed = []\<rparr>"
  obtain weights where w: "init_weights (word_of_nat WINDOW_SIZE) = Inr weights"
    "length weights = WINDOW_SIZE"
    by (rule init_weights_WINDOW_SIZE)
  have run: "g_bRunning env t \<longleftrightarrow> t < ?T" for t
    using assms by (simp add: g_bRunning_iff)
  have before: "10 * j < T" if "j < (T + 9) div 10" for j T :: nat
    using that by presburger
  have after: "\<not> 10 * ((T + 9) div 10) < T" for T :: nat
    by presburger
  have "\<forall>j<?k. g_bRunning env (now ?s0 + 10 * j)"
    by (simp add: run before)
  moreover have "\<not> g_bRunning env (now ?s0 + 10 * ?k)"
    by (simp add: run after)
  ultimately obtain s' where s': "main_loop env (getFrequency env) weights ?s0 = Some (Inr s')"
    "results s' = foldl (\<lambda>w d. pop_while_full w @ [d]) (results ?s0)
       (map (\<lambda>j. fst (doMeasure env (now ?s0 + 10 * j))) [0..<?k])"
    using main_loop_window [OF w(2), of ?k env ?s0 "getFrequency env"] by blast
  from s'(2) have "results s' = drop (?k - WINDOW_SIZE) (map (\<lambda>j. fst (doMeasure env (10 * j))) [0..<?k])"
    by (simp add: push_many)
  with s'(1) w(1) show ?thesis
    by (simp add: tiimt_main_def)
qed

text \<open>Without a signal the loop never ends: the flag is its only exit.\<close>

lemma main_loop_no_signal:
  assumes "main_loop env frequency weights s = Some y"
  shows "length weights = WINDOW_SIZE \<Longrightarrow> signals env \<noteq> []"
  using assms
proof (induction env frequency weights s y rule: main_loop.raw_induct [rotated, consumes 1, case_names step])
  case (step main_loop' env frequency weights s y)
  show ?case
  proof
    assume none: "signals env = []"
    then have run: "g_bRunning env (now s)"
      by (simp add: g_bRunning_iff)
    from loop_body_ok [OF step.prems, of env frequency s]
    obtain s1 where "loop_body env frequency weights s = Inr s1"
      by blast
    with step.hyps run have "main_loop' env frequency weights s1 = Some y"
      by simp
    with step.IH step.prems none show False
      by blast
  qed
qed

lemma tiimt_main_runs_forever:
  assumes "signals env = []"
  shows "tiimt_main env = None"
proof -
  obtain weights where w: "init_weights (word_of_nat WINDOW_SIZE) = Inr weights"
    "length weights = WINDOW_SIZE"
    by (rule init_weights_WINDOW_SIZE)
  have "main_loop env (getFrequency env) weights s = None" for s
    using main_loop_no_signal [OF _ w(2), of env "getFrequency env" s] assms
    by (cases "main_loop env (getFrequency env) weights s") auto
  with w(1) show ?thesis
    by (simp add: tiimt_main_def)
qed

subsection \<open>The smoothing filter\<close>

text \<open>
  C1. For every window as long as the weight vector, and every frequency, \<^verbatim>\<open>getResult\<close>
  returns the sum over the positions \<open>i\<close>, oldest first, of the delay at \<open>i\<close> times
  the weight at \<open>i\<close>, divided by the frequency and multiplied by 1000. (Delays and
  frequency are read as signed 64-bit values.)
\<close>

theorem getResult_weighted_sum:
  "length window = length weights \<Longrightarrow>
   getResult window frequency weights =
     Inr (((\<Sum>i<length window. real_of_int (sint (window ! i)) * weights ! i)
             / real_of_int (sint frequency)) * 1000)"
  by (simp add: getResult_def getResult_loop_sum)

theorem getResult_weighted_sum_witness:
  "length [3, 5 :: int64_t] = length [1 / 4, 3 / 4 :: real] \<and>
   getResult [3, 5] 2000 [1 / 4, 3 / 4] = Inr (9 / 4)"
  using getResult_weighted_sum [of "[3, 5]" "[1 / 4, 3 / 4]" 2000]
  by (simp add: lessThan_Suc)

text \<open>
  C7. On a full window whose entries all equal \<open>v\<close>, with a positive frequency and
  weights that sum to 1, \<^verbatim>\<open>getResult\<close> returns \<open>(v / frequency) * 1000\<close> whatever the
  single weights are. With the weights the program computes, eleven delays of
  \<open>1000000\<close> ticks and a frequency of \<open>1000000000\<close> ticks per second, it returns 1.
\<close>

theorem getResult_constant_window:
  "(0 < sint frequency \<longrightarrow> length weights = n \<longrightarrow> sum_list weights = 1 \<longrightarrow>
      getResult (replicate n v) frequency weights =
        Inr ((real_of_int (sint v) / real_of_int (sint frequency)) * 1000)) \<and>
   (\<exists>weights. init_weights (word_of_nat WINDOW_SIZE) = Inr weights \<and>
      getResult (replicate WINDOW_SIZE 1000000) 1000000000 weights = Inr 1)"
proof -
  have const: "getResult (replicate n v) frequency weights =
        Inr ((real_of_int (sint v) / real_of_int (sint frequency)) * 1000)"
    if "length weights = n" and "sum_list weights = 1"
    for n v frequency and weights :: "real list"
  proof -
    have "(\<Sum>i<n. real_of_int (sint (replicate n v ! i)) * weights ! i) =
          (\<Sum>i<n. real_of_int (sint v) * weights ! i)"
      by (rule sum.cong) simp_all
    also have "\<dots> = real_of_int (sint v) * (\<Sum>i<n. weights ! i)"
      by (simp only: sum_distrib_left)
    also have "(\<Sum>i<n. weights ! i) = sum_list weights"
      using that(1) by (simp add: sum_list_sum_nth atLeast0LessThan)
    finally show ?thesis
      using that by (simp add: getResult_def getResult_loop_sum)
  qed
  have "odd (unat (word_of_nat WINDOW_SIZE :: uint32_t))"
    by (simp add: WINDOW_SIZE_def)
  then obtain weights where w: "init_weights (word_of_nat WINDOW_SIZE) = Inr weights"
    "length weights = unat (word_of_nat WINDOW_SIZE :: uint32_t)" "sum_list weights = 1"
    using init_weights_sum by blast
  then have "length weights = WINDOW_SIZE"
    by (simp add: WINDOW_SIZE_def)
  with w have "getResult (replicate WINDOW_SIZE 1000000) 1000000000 weights = Inr 1"
    by (simp add: const)
  with w(1) const show ?thesis
    by blast
qed

theorem getResult_constant_window_witness:
  "0 < sint (4 :: int64_t) \<and> length [1 / 4, 3 / 4 :: real] = 2 \<and> sum_list [1 / 4, 3 / 4 :: real] = 1 \<and>
   getResult (replicate 2 8) 4 [1 / 4, 3 / 4] = Inr 2000"
  using getResult_constant_window [of 4 "[1 / 4, 3 / 4]" 2 8]
  by simp

subsection \<open>The sample estimator\<close>

text \<open>
  C3. \<^verbatim>\<open>doMeasure\<close> takes exactly five tick differences (ten clock readings, each
  difference between the two readings around one sleep), sorts them ascending as signed
  values and returns the element in the middle. That element is a median: it is one of
  the five, at least three of them are not above it and at least three are not below it.
  When the five differences are \<open>5, 1, 9, 3, 7\<close> it returns \<open>5\<close>.
\<close>

theorem doMeasure_median:
  "(let deltas = map (\<lambda>j. fst (getTimerValue env (t + 2 * j + 1)) -
                              fst (getTimerValue env (t + 2 * j))) [0..<5];
        m = fst (doMeasure env t)
    in doMeasure env t = (sort_key sint deltas ! 2, t + 10) \<and>
       length deltas = 5 \<and>
       m \<in> set deltas \<and>
       3 \<le> length (filter (\<lambda>x. sint x \<le> sint m) deltas) \<and>
       3 \<le> length (filter (\<lambda>x. sint m \<le> sint x) deltas) \<and>
       (deltas = [5, 1, 9, 3, 7] \<longrightarrow> m = 5))"
proof -
  let ?deltas = "map (\<lambda>j. fst (getTimerValue env (t + 2 * j + 1)) -
                              fst (getTimerValue env (t + 2 * j))) [0..<5]"
  have len: "length ?deltas = 5"
    by simp
  have m: "fst (doMeasure env t) = sort_key sint ?deltas ! 2"
    by (simp only: doMeasure_closed fst_conv)
  have "?deltas = [5, 1, 9, 3, 7] \<longrightarrow> sort_key sint ?deltas ! 2 = 5"
    by (intro impI) (simp only:, simp)
  then show ?thesis
    unfolding Let_def m
    using doMeasure_closed [of env t] len median_of_five [OF len]
    by (intro conjI)
qed

theorem doMeasure_median_witness:
  "map (\<lambda>j. fst (getTimerValue
                    \<lparr>QueryPerformanceFrequency = Some 1000,
                     QueryPerformanceCounter = (\<lambda>n. if n < 10 then Some ([0, 5, 5, 6, 6, 15, 15, 18, 18, 25] ! n) else None),
                     signals = []\<rparr> (0 + 2 * j + 1)) -
                fst (getTimerValue
                    \<lparr>QueryPerformanceFrequency = Some 1000,
                     QueryPerformanceCounter = (\<lambda>n. if n < 10 then Some ([0, 5, 5, 6, 6, 15, 15, 18, 18, 25] ! n) else None),
                     signals = []\<rparr> (0 + 2 * j)))
      [0..<5] = [5, 1, 9, 3, 7] \<and>
   fst (doMeasure
          \<lparr>QueryPerformanceFrequency = Some 1000,
           QueryPerformanceCounter = (\<lambda>n. if n < 10 then Some ([0, 5, 5, 6, 6, 15, 15, 18, 18, 25] ! n) else None),
           signals = []\<rparr> 0) = 5"
proof -
  let ?env = "\<lparr>QueryPerformanceFrequency = Some 1000,
           QueryPerformanceCounter = (\<lambda>n. if n < 10 then Some ([0, 5, 5, 6, 6, 15, 15, 18, 18, 25] ! n) else None),
           signals = []\<rparr>"
  have d: "map (\<lambda>j. fst (getTimerValue ?env (0 + 2 * j + 1)) - fst (getTimerValue ?env (0 + 2 * j)))
      [0..<5] = [5, 1, 9, 3, 7]"
  proof -
    have "[0..<5] = [0, 1, 2, 3, 4 :: nat]"
      by code_simp
    then show ?thesis
      by (simp add: getTimerValue_def)
  qed
  from doMeasure_median [of ?env 0] have "map (\<lambda>j. fst (getTimerValue ?env (0 + 2 * j + 1)) -
      fst (getTimerValue ?env (0 + 2 * j))) [0..<5] = [5, 1, 9, 3, 7] \<longrightarrow>
      fst (doMeasure ?env 0) = 5"
    unfolding Let_def by (elim conjE)
  then have "fst (doMeasure ?env 0) = 5"
    using d by (rule mp)
  with d show ?thesis
    by (rule conjI)
qed

subsection \<open>The sample window\<close>

text \<open>
  C4. The window has capacity 11 and a push (the inner loop followed by
  \<^verbatim>\<open>push_back\<close>) never leaves more than 11 entries. A push into a full window drops
  the oldest entry and appends the new delay at the end. Pushing any sequence into the
  empty window leaves its last 11 items in their order; after 12 pushes these are all
  items but the first. This is what the program does: one pass of the loop body makes
  exactly this push, of the delay \<^verbatim>\<open>doMeasure\<close> returns, on the window of its state; and
  a run of \<^verbatim>\<open>tiimt_main\<close> that makes \<open>k\<close> passes ends with the last 11 of the \<open>k\<close>
  measured delays, in the order they were measured.
\<close>

theorem window_fifo:
  "WINDOW_SIZE = 11 \<and>
   length (pop_while_full w @ [d]) \<le> WINDOW_SIZE \<and>
   (length w = WINDOW_SIZE \<longrightarrow> pop_while_full w @ [d] = tl w @ [d]) \<and>
   foldl (\<lambda>w d. pop_while_full w @ [d]) [] xs = drop (length xs - WINDOW_SIZE) xs \<and>
   (length xs = WINDOW_SIZE + 1 \<longrightarrow> foldl (\<lambda>w d. pop_while_full w @ [d]) [] xs = tl xs) \<and>
   (length weights = WINDOW_SIZE \<longrightarrow>
      (\<exists>s'. loop_body env frequency weights s = Inr s' \<and>
         results s' = pop_while_full (results s) @ [fst (doMeasure env (now s))] \<and>
         length (results s') \<le> WINDOW_SIZE \<and>
         (length (results s) = WINDOW_SIZE \<longrightarrow>
            results s' = tl (results s) @ [fst (doMeasure env (now s))]))) \<and>
   (signals env \<noteq> [] \<longrightarrow>
      (\<exists>s. tiimt_main env = Some (Inr (EXIT_SUCCESS, s)) \<and>
         results s =
           drop ((Min (set (signals env)) + 9) div 10 - WINDOW_SIZE)
             (map (\<lambda>j. fst (doMeasure env (10 * j)))
                [0..<(Min (set (signals env)) + 9) div 10])))"
proof (intro conjI impI)
  show "WINDOW_SIZE = 11"
    by (simp add: WINDOW_SIZE_def)
  show "length (pop_while_full w @ [d]) \<le> WINDOW_SIZE"
    by (simp add: pop_while_full_drop WINDOW_SIZE_def)
  show full: "pop_while_full w @ [d] = tl w @ [d]" if "length w = WINDOW_SIZE" for w d
    using that by (simp add: pop_while_full_drop WINDOW_SIZE_def drop_Suc)
  show "foldl (\<lambda>w d. pop_while_full w @ [d]) [] xs = drop (length xs - WINDOW_SIZE) xs"
    by (rule push_many)
  show "foldl (\<lambda>w d. pop_while_full w @ [d]) [] xs = tl xs" if "length xs = WINDOW_SIZE + 1"
    using that by (simp add: push_many drop_Suc)
  show "\<exists>s'. loop_body env frequency weights s = Inr s' \<and>
         results s' = pop_while_full (results s) @ [fst (doMeasure env (now s))] \<and>
         length (results s') \<le> WINDOW_SIZE \<and>
         (length (results s) = WINDOW_SIZE \<longrightarrow>
            results s' = tl (results s) @ [fst (doMeasure env (now s))])"
    if "length weights = WINDOW_SIZE"
  proof -
    from loop_body_ok [OF that, of env frequency s]
    obtain s' where s': "loop_body env frequency weights s = Inr s'"
      "results s' = pop_while_full (results s) @ [fst (doMeasure env (now s))]"
      by blast
    from s'(2) have "length (results s') \<le> WINDOW_SIZE"
      by (simp add: pop_while_full_drop WINDOW_SIZE_def)
    moreover have "results s' = tl (results s) @ [fst (doMeasure env (now s))]"
      if "length (results s) = WINDOW_SIZE"
      using that s'(2) by (simp only: full)
    ultimately show ?thesis
      using s' by blast
  qed
  show "\<exists>s. tiimt_main env = Some (Inr (EXIT_SUCCESS, s)) \<and>
         results s =
           drop ((Min (set (signals env)) + 9) div 10 - WINDOW_SIZE)
             (map (\<lambda>j. fst (doMeasure env (10 * j)))
                [0..<(Min (set (signals env)) + 9) div 10])"
    if "signals env \<noteq> []"
    using that by (rule tiimt_main_window)
qed

theorem window_fifo_witness:
  "length [1, 2, 3, 4, 5, 6, 7, 8, 9, 10, 11 :: int64_t] = WINDOW_SIZE \<and>
   pop_while_full [1, 2, 3, 4, 5, 6, 7, 8, 9, 10, 11] @ [12] = [2, 3, 4, 5, 6, 7, 8, 9, 10, 11, 12] \<and>
   length [1, 2, 3, 4, 5, 6, 7, 8, 9, 10, 11, 12 :: int64_t] = WINDOW_SIZE + 1 \<and>
   foldl (\<lambda>w d. pop_while_full w @ [d]) [] [1, 2, 3, 4, 5, 6, 7, 8, 9, 10, 11, 12] =
     [2, 3, 4, 5, 6, 7, 8, 9, 10, 11, 12] \<and>
   length (replicate 11 (1 / 11 :: real)) = WINDOW_SIZE \<and>
   (\<exists>s'. loop_body
           \<lparr>QueryPerformanceFrequency = Some 1000,
            QueryPerformanceCounter = (\<lambda>n. Some (word_of_nat (n * n))), signals = [115]\<rparr>
           1000 (replicate 11 (1 / 11))
           \<lparr>results = [1, 2, 3, 4, 5, 6, 7, 8, 9, 10, 11], spinner = 0, now = 0,
            printed = [], computed = []\<rparr>
         = Inr s' \<and>
         results s' =
           [2, 3, 4, 5, 6, 7, 8, 9, 10, 11,
            fst (doMeasure
                  \<lparr>QueryPerformanceFrequency = Some 1000,
                   QueryPerformanceCounter = (\<lambda>n. Some (word_of_nat (n * n))),
                   signals = [115]\<rparr> 0)]) \<and>
   signals \<lparr>QueryPerformanceFrequency = Some 1000,
            QueryPerformanceCounter = (\<lambda>n. Some (word_of_nat (n * n))), signals = [115]\<rparr> \<noteq> [] \<and>
   (\<exists>s. tiimt_main
          \<lparr>QueryPerformanceFrequency = Some 1000,
           QueryPerformanceCounter = (\<lambda>n. Some (word_of_nat (n * n))), signals = [115]\<rparr>
        = Some (Inr (EXIT_SUCCESS, s)) \<and>
        results s =
          tl (map (\<lambda>j. fst (doMeasure
                  \<lparr>QueryPerformanceFrequency = Some 1000,
                   QueryPerformanceCounter = (\<lambda>n. Some (word_of_nat (n * n))),
                   signals = [115]\<rparr> (10 * j))) [0..<12]))"
proof -
  let ?env = "\<lparr>QueryPerformanceFrequency = Some 1000,
               QueryPerformanceCounter = (\<lambda>n. Some (word_of_nat (n * n))), signals = [115]\<rparr>"
  let ?s = "\<lparr>results = [1, 2, 3, 4, 5, 6, 7, 8, 9, 10, 11 :: int64_t], spinner = 0, now = 0,
            printed = [], computed = []\<rparr>"
  let ?ws = "replicate 11 (1 / 11 :: real)"
  note fifo = window_fifo [of "[1, 2, 3, 4, 5, 6, 7, 8, 9, 10, 11]" 12
                        "[1, 2, 3, 4, 5, 6, 7, 8, 9, 10, 11, 12]" ?ws ?env 1000 ?s]
  have len: "length ?ws = WINDOW_SIZE"
    by (simp add: WINDOW_SIZE_def)
  have sig: "signals ?env \<noteq> []"
    by simp
  have pure: "length [1, 2, 3, 4, 5, 6, 7, 8, 9, 10, 11 :: int64_t] = WINDOW_SIZE \<and>
   pop_while_full [1, 2, 3, 4, 5, 6, 7, 8, 9, 10, 11] @ [12] = [2, 3, 4, 5, 6, 7, 8, 9, 10, 11, 12] \<and>
   length [1, 2, 3, 4, 5, 6, 7, 8, 9, 10, 11, 12 :: int64_t] = WINDOW_SIZE + 1 \<and>
   foldl (\<lambda>w d. pop_while_full w @ [d]) [] [1, 2, 3, 4, 5, 6, 7, 8, 9, 10, 11, 12] =
     [2, 3, 4, 5, 6, 7, 8, 9, 10, 11, 12]"
    using fifo by (simp add: WINDOW_SIZE_def)
  from fifo len obtain s' where s': "loop_body ?env 1000 ?ws ?s = Inr s'"
    "length (results ?s) = WINDOW_SIZE \<longrightarrow> results s' = tl (results ?s) @ [fst (doMeasure ?env (now ?s))]"
    by blast
  from s'(2) have "results s' = [2, 3, 4, 5, 6, 7, 8, 9, 10, 11, fst (doMeasure ?env 0)]"
    by (simp add: WINDOW_SIZE_def)
  with s'(1) have body: "\<exists>s'. loop_body ?env 1000 ?ws ?s = Inr s' \<and>
      results s' = [2, 3, 4, 5, 6, 7, 8, 9, 10, 11, fst (doMeasure ?env 0)]"
    by blast
  from fifo sig obtain s where s: "tiimt_main ?env = Some (Inr (EXIT_SUCCESS, s))"
    "results s = drop ((Min (set (signals ?env)) + 9) div 10 - WINDOW_SIZE)
             (map (\<lambda>j. fst (doMeasure ?env (10 * j))) [0..<(Min (set (signals ?env)) + 9) div 10])"
    by blast
  have k: "(Min (set (signals ?env)) + 9) div 10 = 12"
    by simp
  from s(2) have "results s = tl (map (\<lambda>j. fst (doMeasure ?env (10 * j))) [0..<12])"
    unfolding k by (simp add: WINDOW_SIZE_def drop_Suc)
  with s(1) have run: "\<exists>s. tiimt_main ?env = Some (Inr (EXIT_SUCCESS, s)) \<and>
      results s = tl (map (\<lambda>j. fst (doMeasure ?env (10 * j))) [0..<12])"
    by blast
  from pure len body sig run show ?thesis
    by (intro conjI) (elim conjE, assumption)+
qed

subsection \<open>Weight initialisation\<close>

text \<open>
  C6. \<^verbatim>\<open>init_weights\<close> throws (the runtime error with its message) exactly when the
  size is even or not positive, and returns a weight vector exactly when the size is odd
  and positive. The size is a \<^verbatim>\<open>uint32_t\<close>, so not positive means zero.
\<close>

theorem init_weights_fails_iff:
  "(init_weights filterSize = Inl (runtime_error ''Filter size must be a positive and odd value!''))
     = (even (unat filterSize) \<or> unat filterSize \<le> 0) \<and>
   (\<exists>weights. init_weights filterSize = Inr weights)
     = (odd (unat filterSize) \<and> 0 < unat filterSize)"
proof (cases "odd (unat filterSize)")
  case True
  then have "0 < unat filterSize"
    by (auto elim: oddE)
  with True init_weights_odd [OF True] show ?thesis
    by simp
next
  case False
  then have "filterSize < 1 \<or> filterSize mod 2 \<noteq> 1"
    by (simp only: odd_word_checks) simp
  then have "init_weights filterSize = Inl (runtime_error ''Filter size must be a positive and odd value!'')"
    by (simp only: init_weights_def if_True)
  with False show ?thesis
    by simp
qed

theorem init_weights_fails_iff_witness:
  "init_weights 4 = Inl (runtime_error ''Filter size must be a positive and odd value!'') \<and>
   init_weights 0 = Inl (runtime_error ''Filter size must be a positive and odd value!'') \<and>
   (\<exists>weights. init_weights 11 = Inr weights)"
  using init_weights_fails_iff [of 4] init_weights_fails_iff [of 0] init_weights_fails_iff [of 11]
  by simp

text \<open>
  C2. For every odd positive size \<open>n\<close>, \<^verbatim>\<open>init_weights\<close> returns a vector of length
  \<open>n\<close> whose entries are all at least 0 and sum to 1, hence to 1 within \<open>1e-9\<close>.
  (In exact arithmetic; the rounding of the floating-point operations is not modelled.)
\<close>

theorem init_weights_normalized:
  "odd (unat filterSize) \<Longrightarrow> 0 < unat filterSize \<Longrightarrow>
   (\<exists>weights. init_weights filterSize = Inr weights \<and>
      length weights = unat filterSize \<and>
      (\<forall>w \<in> set weights. 0 \<le> w) \<and>
      sum_list weights = 1 \<and>
      \<bar>sum_list weights - 1\<bar> \<le> 1 / 10 ^ 9)"
proof -
  assume odd: "odd (unat filterSize)" and pos: "0 < unat filterSize"
  let ?n = "unat filterSize"
  let ?S = "\<Sum>k<?n. raw_weight ?n k"
  from odd obtain weights where w: "init_weights filterSize = Inr weights"
    "length weights = ?n" "sum_list weights = 1"
    using init_weights_sum by blast
  from odd w(1) have nth: "weights ! i = raw_weight ?n i * (1 / ?S)" if "i < ?n" for i
    using that by (auto simp: init_weights_odd)
  have "0 \<le> w" if "w \<in> set weights" for w
  proof -
    from that w(2) obtain i where "i < ?n" "w = weights ! i"
      by (auto simp: in_set_conv_nth)
    then have "w = raw_weight ?n i * (1 / ?S)"
      by (simp add: nth)
    moreover have "0 < raw_weight ?n i" "0 < ?S"
      using pos by (simp_all add: raw_weight_pos raw_total_pos)
    ultimately show ?thesis
      by simp
  qed
  with w show ?thesis
    by simp
qed

theorem init_weights_normalized_witness:
  "odd (unat (11 :: uint32_t)) \<and> 0 < unat (11 :: uint32_t) \<and>
   (\<exists>weights. init_weights 11 = Inr weights \<and>
      length weights = unat (11 :: uint32_t) \<and>
      (\<forall>w \<in> set weights. 0 \<le> w) \<and>
      sum_list weights = 1 \<and>
      \<bar>sum_list weights - 1\<bar> \<le> 1 / 10 ^ 9)"
proof -
  have h: "odd (unat (11 :: uint32_t))" "0 < unat (11 :: uint32_t)"
    by simp_all
  from h init_weights_normalized [OF h] show ?thesis
    by (intro conjI)
qed

text \<open>
  C5. For every odd positive size \<open>n\<close>, with \<open>sigma = ((n / 2 - 1) / 3) + 1 / 3\<close>, every
  weight is one and the same positive constant times
  \<open>exp (- d\<^sup>2 / (2 * sigma\<^sup>2))\<close>, where \<open>d\<close> is the distance of its index from the middle
  index \<open>n div 2\<close>; and the vector is symmetric: the weights at \<open>i\<close> and \<open>n - 1 - i\<close>
  are equal.
\<close>

theorem init_weights_gaussian:
  "odd (unat filterSize) \<Longrightarrow> 0 < unat filterSize \<Longrightarrow>
   (\<exists>weights c sigma.
      init_weights filterSize = Inr weights \<and>
      sigma = ((real (unat filterSize) / 2 - 1) / 3) + 1 / 3 \<and>
      0 < c \<and>
      (\<forall>i < unat filterSize.
         weights ! i =
           c * exp (- ((real_of_int (int i - int (unat filterSize div 2)))\<^sup>2 / (2 * sigma\<^sup>2)))) \<and>
      (\<forall>i < unat filterSize. weights ! i = weights ! (unat filterSize - 1 - i)))"
proof -
  assume odd: "odd (unat filterSize)" and pos: "0 < unat filterSize"
  let ?n = "unat filterSize"
  let ?S = "\<Sum>k<?n. raw_weight ?n k"
  let ?sigma = "((real ?n / 2 - 1) / 3) + 1 / 3"
  let ?c = "1 / (?sigma * sqrt (2 * PI)) * (1 / ?S)"
  let ?weights = "map (\<lambda>j. raw_weight ?n j * (1 / ?S)) [0..<?n]"
  have w: "init_weights filterSize = Inr ?weights"
    using odd by (rule init_weights_odd)
  have "0 < ?c"
    using sigma_pos [OF pos] PI_pos raw_total_pos [OF pos] by simp
  moreover have "?weights ! i =
      ?c * exp (- ((real_of_int (int i - int (?n div 2)))\<^sup>2 / (2 * ?sigma\<^sup>2)))"
    if "i < ?n" for i
    using that by (simp add: raw_weight_eq)
  moreover have "?weights ! i = ?weights ! (?n - 1 - i)" if "i < ?n" for i
    using that raw_weight_sym [OF odd that] by simp
  ultimately show ?thesis
    using w by blast
qed

theorem init_weights_gaussian_witness:
  "odd (unat (11 :: uint32_t)) \<and> 0 < unat (11 :: uint32_t) \<and>
   (\<exists>weights c sigma.
      init_weights 11 = Inr weights \<and>
      sigma = ((real (unat (11 :: uint32_t)) / 2 - 1) / 3) + 1 / 3 \<and>
      0 < c \<and>
      (\<forall>i < unat (11 :: uint32_t).
         weights ! i =
           c * exp (- ((real_of_int (int i - int (unat (11 :: uint32_t) div 2)))\<^sup>2 / (2 * sigma\<^sup>2)))) \<and>
      (\<forall>i < unat (11 :: uint32_t). weights ! i = weights ! (unat (11 :: uint32_t) - 1 - i)))"
proof -
  have h: "odd (unat (11 :: uint32_t))" "0 < unat (11 :: uint32_t)"
    by simp_all
  from h init_weights_gaussian [OF h] show ?thesis
    by (intro conjI)
qed

text \<open>
  C10. For every odd positive size, every weight is strictly positive, the weight at the
  middle index is the largest, and the weights do not decrease towards the middle from
  the left nor increase away from it to the right.
\<close>

theorem init_weights_unimodal:
  "odd (unat filterSize) \<Longrightarrow> 0 < unat filterSize \<Longrightarrow>
   (\<exists>weights. init_weights filterSize = Inr weights \<and>
      length weights = unat filterSize \<and>
      (\<forall>i < unat filterSize. 0 < weights ! i) \<and>
      (\<forall>i < unat filterSize. weights ! i \<le> weights ! (unat filterSize div 2)) \<and>
      (\<forall>i j. i \<le> j \<and> j \<le> unat filterSize div 2 \<longrightarrow> weights ! i \<le> weights ! j) \<and>
      (\<forall>i j. unat filterSize div 2 \<le> i \<and> i \<le> j \<and> j < unat filterSize \<longrightarrow>
         weights ! j \<le> weights ! i))"
proof -
  assume odd: "odd (unat filterSize)" and pos: "0 < unat filterSize"
  let ?n = "unat filterSize"
  let ?S = "\<Sum>k<?n. raw_weight ?n k"
  let ?weights = "map (\<lambda>j. raw_weight ?n j * (1 / ?S)) [0..<?n]"
  have w: "init_weights filterSize = Inr ?weights"
    using odd by (rule init_weights_odd)
  have S: "0 < ?S"
    using pos by (rule raw_total_pos)
  have mid: "?n div 2 < ?n"
    using pos by simp
  have le: "?weights ! i \<le> ?weights ! j"
    if "i < ?n" "j < ?n" "\<bar>int j - int (?n div 2)\<bar> \<le> \<bar>int i - int (?n div 2)\<bar>" for i j
  proof -
    have "raw_weight ?n i \<le> raw_weight ?n j"
      using pos that(3) by (rule raw_weight_mono)
    then have "raw_weight ?n i * (1 / ?S) \<le> raw_weight ?n j * (1 / ?S)"
      using S by (intro mult_right_mono) simp_all
    with that(1,2) show ?thesis
      by simp
  qed
  have "0 < ?weights ! i" if "i < ?n" for i
    using that S raw_weight_pos [OF pos, of i] by simp
  moreover have "?weights ! i \<le> ?weights ! (?n div 2)" if "i < ?n" for i
    using that mid by (intro le) simp_all
  moreover have "?weights ! i \<le> ?weights ! j" if "i \<le> j \<and> j \<le> ?n div 2" for i j
    using that mid by (intro le) linarith+
  moreover have "?weights ! j \<le> ?weights ! i" if "?n div 2 \<le> i \<and> i \<le> j \<and> j < ?n" for i j
    using that by (intro le) linarith+
  ultimately show ?thesis
    using w by (intro exI [of _ ?weights]) simp
qed

theorem init_weights_unimodal_witness:
  "odd (unat (11 :: uint32_t)) \<and> 0 < unat (11 :: uint32_t) \<and>
   (\<exists>weights. init_weights 11 = Inr weights \<and>
      length weights = unat (11 :: uint32_t) \<and>
      (\<forall>i < unat (11 :: uint32_t). 0 < weights ! i) \<and>
      (\<forall>i < unat (11 :: uint32_t). weights ! i \<le> weights ! (unat (11 :: uint32_t) div 2)) \<and>
      (\<forall>i j. i \<le> j \<and> j \<le> unat (11 :: uint32_t) div 2 \<longrightarrow> weights ! i \<le> weights ! j) \<and>
      (\<forall>i j. unat (11 :: uint32_t) div 2 \<le> i \<and> i \<le> j \<and> j < unat (11 :: uint32_t) \<longrightarrow>
         weights ! j \<le> weights ! i))"
proof -
  have h: "odd (unat (11 :: uint32_t))" "0 < unat (11 :: uint32_t)"
    by simp_all
  from h init_weights_unimodal [OF h] show ?thesis
    by (intro conjI)
qed

subsection \<open>The sampling loop\<close>

text \<open>
  C8. \<^verbatim>\<open>getResult\<close> reads past the end of the weight vector exactly when the window is
  longer than the vector. One pass of the loop body, from any state and with eleven
  weights, never faults, and it calls \<^verbatim>\<open>getResult\<close> only when the window it has just
  pushed to holds exactly 11 entries (the call is then on that window), not when it holds
  fewer. Whenever \<^verbatim>\<open>tiimt_main\<close> returns, it has not faulted and every window
  \<^verbatim>\<open>getResult\<close> was called on had 11 entries, as many as the weight vector.
\<close>

theorem getResult_only_on_full_window:
  "((\<exists>r. getResult window frequency weights = Inr r) = (length window \<le> length weights)) \<and>
   (length weights = WINDOW_SIZE \<longrightarrow>
      (\<exists>s'. loop_body env frequency weights s = Inr s' \<and>
         (computed s' = computed s \<and> length (results s') \<noteq> WINDOW_SIZE \<or>
          computed s' = computed s @ [results s'] \<and> length (results s') = WINDOW_SIZE))) \<and>
   (tiimt_main env = Some y \<longrightarrow>
      (\<exists>s weights'. y = Inr (EXIT_SUCCESS, s) \<and>
         init_weights (word_of_nat WINDOW_SIZE) = Inr weights' \<and>
         (\<forall>w \<in> set (computed s). length w = WINDOW_SIZE \<and> length w = length weights')))"
proof (intro conjI impI)
  show "(\<exists>r. getResult window frequency weights = Inr r) = (length window \<le> length weights)"
    by (rule getResult_Inr_iff)
  show "\<exists>s'. loop_body env frequency weights s = Inr s' \<and>
         (computed s' = computed s \<and> length (results s') \<noteq> WINDOW_SIZE \<or>
          computed s' = computed s @ [results s'] \<and> length (results s') = WINDOW_SIZE)"
    if "length weights = WINDOW_SIZE"
    using loop_body_ok [OF that, of env frequency s] by blast
  show "\<exists>s weights'. y = Inr (EXIT_SUCCESS, s) \<and>
         init_weights (word_of_nat WINDOW_SIZE) = Inr weights' \<and>
         (\<forall>w \<in> set (computed s). length w = WINDOW_SIZE \<and> length w = length weights')"
    if y: "tiimt_main env = Some y"
  proof -
    let ?s0 = "\<lparr>results = [], spinner = 0, now = 0,
                printed = [Banner, Initializing], computed = []\<rparr>"
    obtain weights' where w: "init_weights (word_of_nat WINDOW_SIZE) = Inr weights'"
      "length weights' = WINDOW_SIZE"
      by (rule init_weights_WINDOW_SIZE)
    from y w(1) obtain z where z: "main_loop env (getFrequency env) weights' ?s0 = Some z"
      by (auto simp: tiimt_main_def split: option.splits)
    then obtain s' where s': "z = Inr s'" "\<forall>w \<in> set (computed s'). length w = WINDOW_SIZE"
      using main_loop_computed [OF z w(2)] by auto
    with y z w(1) have "y = Inr (EXIT_SUCCESS, s'\<lparr>printed := printed s' @ [ExitNotice]\<rparr>)"
      by (simp add: tiimt_main_def)
    with s'(2) w show ?thesis
      by auto
  qed
qed

theorem getResult_only_on_full_window_witness:
  "length (replicate 11 (1 / 11 :: real)) = WINDOW_SIZE \<and>
   (\<exists>s'. loop_body
           \<lparr>QueryPerformanceFrequency = Some 1000,
            QueryPerformanceCounter = (\<lambda>n. Some (word_of_nat (n * n))), signals = [101]\<rparr>
           1000 (replicate 11 (1 / 11))
           \<lparr>results = [], spinner = 0, now = 0, printed = [Banner, Initializing], computed = []\<rparr>
         = Inr s' \<and> computed s' = [] \<and> length (results s') \<noteq> WINDOW_SIZE) \<and>
   (\<exists>y s. tiimt_main
            \<lparr>QueryPerformanceFrequency = Some 1000,
             QueryPerformanceCounter = (\<lambda>n. Some (word_of_nat (n * n))), signals = [101]\<rparr>
          = Some y \<and>
          y = Inr (EXIT_SUCCESS, s) \<and> (\<forall>w \<in> set (computed s). length w = WINDOW_SIZE))"
proof -
  let ?env = "\<lparr>QueryPerformanceFrequency = Some 1000,
               QueryPerformanceCounter = (\<lambda>n. Some (word_of_nat (n * n))), signals = [101]\<rparr>"
  let ?s0 = "\<lparr>results = [], spinner = 0, now = 0, printed = [Banner, Initializing],
               computed = []\<rparr>"
  have len: "length (replicate 11 (1 / 11 :: real)) = WINDOW_SIZE"
    by (simp add: WINDOW_SIZE_def)
  have "signals ?env \<noteq> []"
    by simp
  then obtain y where y: "tiimt_main ?env = Some y"
    using tiimt_main_returns by blast
  have short: "length (results s') \<noteq> WINDOW_SIZE"
    if "loop_body ?env 1000 (replicate 11 (1 / 11)) ?s0 = Inr s'" for s'
    using that loop_body_ok [OF len, of ?env 1000 ?s0]
    by (auto simp: pop_while_full_drop WINDOW_SIZE_def)
  note full = getResult_only_on_full_window [of "[]" 1000 "replicate 11 (1 / 11)" ?env ?s0 y]
  from full len obtain s' where s': "loop_body ?env 1000 (replicate 11 (1 / 11)) ?s0 = Inr s'"
    "computed s' = computed ?s0 \<and> length (results s') \<noteq> WINDOW_SIZE \<or>
     computed s' = computed ?s0 @ [results s'] \<and> length (results s') = WINDOW_SIZE"
    by blast
  with short [OF s'(1)] have "computed s' = [] \<and> length (results s') \<noteq> WINDOW_SIZE"
    by simp
  with s'(1) have first: "\<exists>s'. loop_body ?env 1000 (replicate 11 (1 / 11)) ?s0 = Inr s' \<and>
      computed s' = [] \<and> length (results s') \<noteq> WINDOW_SIZE"
    by blast
  from full y obtain s where "y = Inr (EXIT_SUCCESS, s)"
    "\<forall>w \<in> set (computed s). length w = WINDOW_SIZE"
    by blast
  with y have "\<exists>y s. tiimt_main ?env = Some y \<and> y = Inr (EXIT_SUCCESS, s) \<and>
      (\<forall>w \<in> set (computed s). length w = WINDOW_SIZE)"
    by blast
  with len first show ?thesis
    by (intro conjI)
qed

text \<open>
  C9. Whenever the handler runs, at whatever moments (the earliest being \<open>T\<close>), the flag
  is true at a time \<open>t\<close> exactly when \<open>t < T\<close>, and the program returns: the loop stops
  at a multiple of ten clock readings, that is after whole passes of five sleeps, the
  first such moment not before \<open>T\<close>; the last thing printed is the exit notice; and
  \<^verbatim>\<open>main\<close> returns \<^verbatim>\<open>EXIT_SUCCESS\<close>, which is 0.
\<close>

theorem shutdown_completes_cycle:
  "signals env \<noteq> [] \<Longrightarrow>
   (\<forall>t. g_bRunning env t = (t < Min (set (signals env)))) \<and>
   (\<exists>s. tiimt_main env = Some (Inr (EXIT_SUCCESS, s)) \<and>
        main env = Some (Returned EXIT_SUCCESS) \<and> EXIT_SUCCESS = 0 \<and>
        last (printed s) = ExitNotice \<and>
        now s mod 10 = 0 \<and>
        Min (set (signals env)) \<le> now s \<and> now s < Min (set (signals env)) + 10)"
proof -
  assume sig: "signals env \<noteq> []"
  then obtain s where s: "tiimt_main env = Some (Inr (EXIT_SUCCESS, s))"
    "now s = 10 * ((Min (set (signals env)) + 9) div 10)" "last (printed s) = ExitNotice"
    using tiimt_main_returns by blast
  have "main env = Some (Returned EXIT_SUCCESS)"
    by (simp add: main_def s(1))
  moreover have "now s mod 10 = 0"
    by (simp add: s(2))
  moreover have "Min (set (signals env)) \<le> now s" "now s < Min (set (signals env)) + 10"
    unfolding s(2) by presburger+
  moreover have "g_bRunning env t = (t < Min (set (signals env)))" for t
    using sig by (simp add: g_bRunning_iff)
  ultimately show ?thesis
    using s(1,3) by (auto simp: EXIT_SUCCESS_def)
qed

theorem shutdown_completes_cycle_witness:
  "signals \<lparr>QueryPerformanceFrequency = Some 1000,
             QueryPerformanceCounter = (\<lambda>n. Some (word_of_nat (n * n))), signals = [23, 57]\<rparr> \<noteq> [] \<and>
   (\<exists>s. tiimt_main
          \<lparr>QueryPerformanceFrequency = Some 1000,
           QueryPerformanceCounter = (\<lambda>n. Some (word_of_nat (n * n))), signals = [23, 57]\<rparr>
          = Some (Inr (EXIT_SUCCESS, s)) \<and>
        main \<lparr>QueryPerformanceFrequency = Some 1000,
              QueryPerformanceCounter = (\<lambda>n. Some (word_of_nat (n * n))), signals = [23, 57]\<rparr>
          = Some (Returned 0) \<and>
        last (printed s) = ExitNotice \<and> now s = 30)"
proof -
  let ?env = "\<lparr>QueryPerformanceFrequency = Some 1000,
               QueryPerformanceCounter = (\<lambda>n. Some (word_of_nat (n * n))), signals = [23, 57]\<rparr>"
  have sig: "signals ?env \<noteq> []"
    by simp
  have T: "Min (set (signals ?env)) = 23"
    by simp
  from shutdown_completes_cycle [OF sig] obtain s where
    s: "tiimt_main ?env = Some (Inr (EXIT_SUCCESS, s))" "main ?env = Some (Returned EXIT_SUCCESS)"
       "EXIT_SUCCESS = 0" "last (printed s) = ExitNotice"
       "now s mod 10 = 0" "Min (set (signals ?env)) \<le> now s"
       "now s < Min (set (signals ?env)) + 10"
    by (elim conjE exE)
  from s(6,7) have "23 \<le> now s" "now s < 33"
    by (simp_all only: T)
  with s(5) have "now s = 30"
    by presburger
  moreover from s(2,3) have "main ?env = Some (Returned 0)"
    by (simp only:)
  ultimately have "\<exists>s. tiimt_main ?env = Some (Inr (EXIT_SUCCESS, s)) \<and>
      main ?env = Some (Returned 0) \<and> last (printed s) = ExitNotice \<and> now s = 30"
    using s(1,4) by blast
  with sig show ?thesis
    by (intro conjI)
qed

end
